theory Spec2Isabelle
  imports Main "HOL-Library.AList" "HOL-Library.Multiset"
begin

section \<open>Event mining: package events, TransferMadeEventMiner\<close>

text \<open>
  \<^verbatim>\<open>operation.Body\<close> is a Go interface value. The type assertion
  \<^verbatim>\<open>operation.Body.(*database.TransferOperation)\<close> succeeds exactly when the dynamic type of
  the body is \<^verbatim>\<open>*database.TransferOperation\<close>. The body is therefore a tagged union: either a
  transfer operation (payload type \<open>'t\<close>: the library's struct, which the miner never
  inspects), or a value of any other dynamic type (\<open>'o\<close>, the nil interface included).
\<close>

datatype ('t, 'o) body = TransferOperation 't | OtherBody 'o

record ('t, 'o) Operation =
  Body :: "('t, 'o) body"

text \<open>\<^verbatim>\<open>type TransferMade struct { Op *database.TransferOperation }\<close>\<close>

record 't TransferMade =
  Op :: 't

text \<open>
  \<^verbatim>\<open>MineEvent(operation, content) []interface{}\<close>: the content argument (a pointer, nil for
  this miner) is ignored; a nil slice is the empty sequence. The function has no error result.
\<close>

definition MineEvent :: "('t, 'o) Operation \<Rightarrow> 'c option \<Rightarrow> 't TransferMade list" where
  "MineEvent operation content =
     (case Body operation of
        TransferOperation opr \<Rightarrow> [\<lparr>Op = opr\<rparr>]
      | OtherBody _ \<Rightarrow> [])"

section \<open>The connection registry: package eventstream, Manager\<close>

text \<open>
  A \<^verbatim>\<open>*websocket.Conn\<close> is identified by a number (its pointer identity). The connections
  belong to the websocket library; what the registry does to them is recorded as the list of
  calls it makes on them, oldest first.
\<close>

type_synonym userId = string
type_synonym wsConn = nat

datatype 'e connCall =
    ConnClose wsConn
  | SetWriteDeadline wsConn int
  | WriteJSON wsConn 'e

text \<open>
  Go's \<^verbatim>\<open>error\<close>: an error of the websocket library, or \<^verbatim>\<open>errors.Wrap(err, message)\<close>.
  A nil error is \<open>None\<close>.
\<close>

datatype error = ConnError string | Wrap error string

text \<open>
  \<^verbatim>\<open>connectionRecord{conn, lock}\<close>. The per-record mutex is taken and released inside one
  \<^verbatim>\<open>sendEvent\<close> call, and the registry's RWMutex inside each critical section below, so
  between the steps modelled here every lock is free; the locks carry no other state.
\<close>

record connectionRecord =
  conn :: wsConn

text \<open>
  \<^verbatim>\<open>Manager{connections, closed, lock}\<close>. The Go map is an association list with
  \<open>map_of\<close> as lookup, \<open>AList.update\<close> as assignment and \<open>AList.delete\<close> as \<^verbatim>\<open>delete\<close>.
\<close>

record Manager =
  connections :: "(userId \<times> connectionRecord) list"
  closed :: bool

record 'e world =
  manager :: Manager
  calls :: "'e connCall list"

definition NewManager :: Manager where
  "NewManager = \<lparr>connections = [], closed = False\<rparr>"

definition conn_Close :: "wsConn \<Rightarrow> 'e world \<Rightarrow> 'e world" where
  "conn_Close c w = w\<lparr>calls := calls w @ [ConnClose c]\<rparr>"

definition set_connections :: "(userId \<times> connectionRecord) list \<Rightarrow> 'e world \<Rightarrow> 'e world" where
  "set_connections cs w = w\<lparr>manager := (manager w)\<lparr>connections := cs\<rparr>\<rparr>"

text \<open>
  The goroutine started by the \<^verbatim>\<open>/ws/\<close> handler of \<^verbatim>\<open>Manager.Bind\<close>, up to the read loop.
  On a closed registry it returns at once and its deferred \<^verbatim>\<open>conn.Close()\<close> runs; otherwise
  it closes the connection of any record the user already has, stores the new record and
  enters the read loop. The \<^verbatim>\<open>log.Println\<close> calls have no effect on the registry and are left
  out.
\<close>

datatype handler = Returned | Reading

definition Bind_handler :: "userId \<Rightarrow> wsConn \<Rightarrow> 'e world \<Rightarrow> handler \<times> 'e world" where
  "Bind_handler userID c w =
     (if closed (manager w) then (Returned, conn_Close c w)
      else
        let w1 = (case map_of (connections (manager w)) userID of
                    Some rec \<Rightarrow> conn_Close (conn rec) w
                  | None \<Rightarrow> w);
            w2 = set_connections
                   (AList.update userID \<lparr>conn = c\<rparr> (connections (manager w1))) w1
        in (Reading, w2))"

text \<open>
  The read loop of the same goroutine when \<^verbatim>\<open>conn.ReadMessage()\<close> returns an error:
  \<^verbatim>\<open>delete(manager.connections, userID)\<close>, return, and the deferred \<^verbatim>\<open>conn.Close()\<close>.
\<close>

definition Bind_readError :: "userId \<Rightarrow> wsConn \<Rightarrow> 'e world \<Rightarrow> 'e world" where
  "Bind_readError userID c w =
     conn_Close c (set_connections (AList.delete userID (connections (manager w))) w)"

text \<open>
  \<^verbatim>\<open>sendEvent(userId, event)\<close>. The clock reading \<open>now\<close> (nanoseconds) and the results of
  \<^verbatim>\<open>SetWriteDeadline\<close> and \<^verbatim>\<open>WriteJSON\<close> come from outside and are parameters.
\<close>

definition Second :: int where
  "Second = 1000000000"

definition sendEvent ::
  "userId \<Rightarrow> 'e \<Rightarrow> int \<Rightarrow> error option \<Rightarrow> error option \<Rightarrow> 'e world \<Rightarrow> error option \<times> 'e world" where
  "sendEvent userId event now deadlineResult writeResult w =
     (if closed (manager w) then (None, w)
      else case map_of (connections (manager w)) userId of
        None \<Rightarrow> (None, w)
      | Some rec \<Rightarrow>
          let w1 = w\<lparr>calls := calls w @ [SetWriteDeadline (conn rec) (now + 10 * Second)]\<rparr>
          in (case deadlineResult of
                Some err \<Rightarrow> (Some (Wrap err ''failed to set write deadline''), w1)
              | None \<Rightarrow> (writeResult, w1\<lparr>calls := calls w1 @ [WriteJSON (conn rec) event]\<rparr>)))"

text \<open>
  \<^verbatim>\<open>Manager.Close()\<close>. Go ranges over the map in an unspecified order; the model takes the
  order of the association list (see \<open>closeAll_order\<close> below for why the order is immaterial
  to the number of \<^verbatim>\<open>Close\<close> calls each connection receives).
\<close>

definition closeAll :: "(userId \<times> connectionRecord) list \<Rightarrow> 'e world \<Rightarrow> 'e world" where
  "closeAll cs w = foldl (\<lambda>w' (_, rec). conn_Close (conn rec) w') w cs"

definition Close :: "'e world \<Rightarrow> error option \<times> 'e world" where
  "Close w =
     (let w1 = w\<lparr>manager := (manager w)\<lparr>closed := True\<rparr>\<rparr>
      in (None, closeAll (connections (manager w1)) w1))"

text \<open>Observations on the call log.\<close>

definition closeCalls :: "wsConn \<Rightarrow> 'e world \<Rightarrow> nat" where
  "closeCalls c w = length (filter (\<lambda>k. k = ConnClose c) (calls w))"

definition isClosed :: "wsConn \<Rightarrow> 'e world \<Rightarrow> bool" where
  "isClosed c w = (0 < closeCalls c w)"

text \<open>\<^verbatim>\<open>errors.Wrap\<close> was applied at the top of an error value.\<close>

fun isWrapped :: "error \<Rightarrow> bool" where
  "isWrapped (Wrap _ _) = True"
| "isWrapped (ConnError _) = False"

section \<open>Executions of the registry\<close>

text \<open>
  Every change of the registry happens while the RWMutex is held, so an execution is a
  sequence of steps. A step is one critical section, together with the deferred
  \<^verbatim>\<open>conn.Close()\<close> when the goroutine returns after it (that call runs once the lock is
  released and touches the goroutine's own connection only):
  \<^item> \<open>Open u c\<close>: the handler goroutine for a fresh connection \<open>c\<close> of user \<open>u\<close>, up to its
    read loop (or to its return on a closed registry);
  \<^item> \<open>ReadError u c\<close>: \<^verbatim>\<open>ReadMessage\<close> fails in the read loop of that goroutine (the remote
    side went away, or the connection was closed locally) and the goroutine runs to its end;
  \<^item> \<open>Send u e now d wr\<close>: one \<^verbatim>\<open>sendEvent\<close> call with the results \<open>d\<close>, \<open>wr\<close> of the deadline
    and write calls;
  \<^item> \<open>Shutdown\<close>: one \<^verbatim>\<open>Manager.Close\<close> call.
  The system state adds to the world the goroutines that sit in their read loop and the
  connections handed out by the upgrader so far (each \<^verbatim>\<open>Upgrade\<close> returns a new one).
\<close>

record 'e system =
  world :: "'e world"
  readers :: "(userId \<times> wsConn) list"
  opened :: "wsConn list"

datatype 'e action =
    Open userId wsConn
  | ReadError userId wsConn
  | Send userId 'e int "error option" "error option"
  | Shutdown

definition initial :: "'e system" where
  "initial = \<lparr>world = \<lparr>manager = NewManager, calls = []\<rparr>, readers = [], opened = []\<rparr>"

fun step :: "'e action \<Rightarrow> 'e system \<Rightarrow> 'e system option" where
  "step (Open u c) s =
     (if c \<in> set (opened s) then None
      else case Bind_handler u c (world s) of
             (Reading, w) \<Rightarrow>
               Some \<lparr>world = w, readers = readers s @ [(u, c)], opened = opened s @ [c]\<rparr>
           | (Returned, w) \<Rightarrow>
               Some \<lparr>world = w, readers = readers s, opened = opened s @ [c]\<rparr>)"
| "step (ReadError u c) s =
     (if (u, c) \<in> set (readers s)
      then Some \<lparr>world = Bind_readError u c (world s),
                 readers = removeAll (u, c) (readers s), opened = opened s\<rparr>
      else None)"
| "step (Send u e now d wr) s = Some (s\<lparr>world := snd (sendEvent u e now d wr (world s))\<rparr>)"
| "step Shutdown s = Some (s\<lparr>world := snd (Close (world s))\<rparr>)"

fun exec :: "'e action list \<Rightarrow> 'e system \<Rightarrow> 'e system option" where
  "exec [] s = Some s"
| "exec (a # as) s = (case step a s of None \<Rightarrow> None | Some s' \<Rightarrow> exec as s')"

text \<open>
  What holds of every state an execution can reach: the map's keys are unique; every record
  in the map belongs to a goroutine in its read loop, started for the same user; no two
  such goroutines share a connection; they all hold connections that were handed out; the
  records of a registry that is not closed have channels that were never closed; a
  connection whose goroutine is gone was closed; only connections that were handed out
  are ever closed; and while the registry is not closed, a connection whose goroutine is
  still reading was closed at most once and no connection more than twice.
\<close>

definition consistent :: "'e system \<Rightarrow> bool" where
  "consistent s \<longleftrightarrow>
     distinct (map fst (connections (manager (world s)))) \<and>
     (\<forall>p \<in> set (connections (manager (world s))). (fst p, conn (snd p)) \<in> set (readers s)) \<and>
     distinct (map snd (readers s)) \<and>
     snd ` set (readers s) \<subseteq> set (opened s) \<and>
     (\<not> closed (manager (world s)) \<longrightarrow>
        (\<forall>p \<in> set (connections (manager (world s))). closeCalls (conn (snd p)) (world s) = 0)) \<and>
     (\<forall>c \<in> set (opened s). c \<notin> snd ` set (readers s) \<longrightarrow> 1 \<le> closeCalls c (world s)) \<and>
     (\<forall>c. 0 < closeCalls c (world s) \<longrightarrow> c \<in> set (opened s)) \<and>
     (\<not> closed (manager (world s)) \<longrightarrow>
        (\<forall>r \<in> set (readers s). closeCalls (snd r) (world s) \<le> 1) \<and>
        (\<forall>c. closeCalls c (world s) \<le> 2))"

section \<open>Basic facts about the call log\<close>

lemma manager_conn_Close [simp]: "manager (conn_Close c w) = manager w"
  by (simp add: conn_Close_def)

lemma calls_conn_Close [simp]: "calls (conn_Close c w) = calls w @ [ConnClose c]"
  by (simp add: conn_Close_def)

lemma manager_set_connections [simp]:
  "manager (set_connections cs w) = (manager w)\<lparr>connections := cs\<rparr>"
  by (simp add: set_connections_def)

lemma calls_set_connections [simp]: "calls (set_connections cs w) = calls w"
  by (simp add: set_connections_def)

lemma manager_closeAll [simp]: "manager (closeAll cs w) = manager w"
  unfolding closeAll_def by (induction cs arbitrary: w) (simp_all add: case_prod_beta)

lemma calls_closeAll:
  "calls (closeAll cs w) = calls w @ map (\<lambda>p. ConnClose (conn (snd p))) cs"
  unfolding closeAll_def by (induction cs arbitrary: w) (simp_all add: case_prod_beta)

lemma closeCalls_conn_Close [simp]:
  "closeCalls c (conn_Close c' w) = closeCalls c w + (if c' = c then 1 else 0)"
  by (simp add: closeCalls_def)

lemma closeCalls_set_connections [simp]:
  "closeCalls c (set_connections cs w) = closeCalls c w"
  by (simp add: closeCalls_def)

lemma closeCalls_closeAll:
  "closeCalls c (closeAll cs w) = closeCalls c w + length (filter (\<lambda>p. conn (snd p) = c) cs)"
  by (simp add: closeCalls_def calls_closeAll filter_map comp_def)

text \<open>
  The number of \<^verbatim>\<open>Close\<close> calls a connection receives from the loop of \<^verbatim>\<open>Manager.Close\<close> is
  the same for every order in which the map's entries are visited.
\<close>

lemma closeAll_order:
  assumes "mset cs = mset cs'"
  shows "closeCalls c (closeAll cs w) = closeCalls c (closeAll cs' w)"
proof -
  have "length (filter (\<lambda>p. conn (snd p) = c) cs) = size (filter_mset (\<lambda>p. conn (snd p) = c) (mset cs))"
    by (simp flip: mset_filter)
  also have "\<dots> = length (filter (\<lambda>p. conn (snd p) = c) cs')"
    using assms by (simp flip: mset_filter)
  finally show ?thesis by (simp add: closeCalls_closeAll)
qed

section \<open>Mining\<close>

text \<open>
  C6. The transfer miner returns the empty sequence when the operation's body is not a
  transfer operation, and exactly one TransferMade event whose \<open>Op\<close> is the operation's
  body itself when it is; it has no failing outcome.
\<close>

theorem C6_MineEvent:
  "(\<forall>x. Body operation = OtherBody x \<longrightarrow> MineEvent operation content = []) \<and>
   (\<forall>t. Body operation = TransferOperation t \<longrightarrow>
      MineEvent operation content = [\<lparr>Op = t\<rparr>] \<and>
      length (MineEvent operation content) = 1 \<and>
      Op (hd (MineEvent operation content)) = t)"
  by (simp add: MineEvent_def)

theorem C6_MineEvent_witness:
  "MineEvent (\<lparr>Body = OtherBody ''vote''\<rparr> :: (string \<times> string \<times> string, string) Operation)
      (None :: unit option) = [] \<and>
   MineEvent (\<lparr>Body = TransferOperation (''bob'', ''alice'', ''5.000 STEEM'')\<rparr>
                :: (string \<times> string \<times> string, string) Operation) (None :: unit option)
     = [\<lparr>Op = (''bob'', ''alice'', ''5.000 STEEM'')\<rparr>]"
  using
    C6_MineEvent [of "\<lparr>Body = OtherBody ''vote''\<rparr> :: (string \<times> string \<times> string, string) Operation"
                     "None :: unit option"]
    C6_MineEvent [of "\<lparr>Body = TransferOperation (''bob'', ''alice'', ''5.000 STEEM'')\<rparr>
                        :: (string \<times> string \<times> string, string) Operation"
                     "None :: unit option"]
  by simp

section \<open>Single operations of the registry\<close>

text \<open>
  C3. When user \<open>u\<close> already has a record and the registry is not closed, the handler for a
  new connection \<open>c\<close> closes the existing record's channel (the one call it makes), stores
  the new record under \<open>u\<close> and leaves every other user's entry and the closed flag alone;
  the lookup of \<open>u\<close> then yields the new connection, and with unique keys the map holds
  exactly one entry for \<open>u\<close>.
\<close>

theorem C3_Open_replaces:
  assumes "\<not> closed (manager w)"
    and "map_of (connections (manager w)) u = Some old"
  shows "fst (Bind_handler u c w) = Reading \<and>
         calls (snd (Bind_handler u c w)) = calls w @ [ConnClose (conn old)] \<and>
         map_of (connections (manager (snd (Bind_handler u c w)))) u = Some \<lparr>conn = c\<rparr> \<and>
         (\<forall>u'. u' \<noteq> u \<longrightarrow>
            map_of (connections (manager (snd (Bind_handler u c w)))) u'
              = map_of (connections (manager w)) u') \<and>
         closed (manager (snd (Bind_handler u c w))) = closed (manager w) \<and>
         (distinct (map fst (connections (manager w))) \<longrightarrow>
            filter (\<lambda>p. fst p = u) (connections (manager (snd (Bind_handler u c w))))
              = [(u, \<lparr>conn = c\<rparr>)])"
proof -
  let ?cs = "connections (manager w)"
  have sel: "filter (\<lambda>p. fst p = u) (AList.update u v xs) = [(u, v)]"
    if "distinct (map fst xs)" for v :: connectionRecord and xs
    using that
  proof (induction xs)
    case Nil
    show ?case by simp
  next
    case (Cons x xs)
    have none: "filter (\<lambda>p. fst p = u) xs = []" if "fst x = u"
      using Cons.prems that by (auto simp: filter_empty_conv intro: rev_image_eqI)
    show ?case
    proof (cases "fst x = u")
      case True
      with none show ?thesis by (cases x) simp
    next
      case False
      with Cons show ?thesis by (cases x) simp
    qed
  qed
  show ?thesis
    using assms sel [of ?cs "\<lparr>conn = c\<rparr>"]
    by (simp add: Bind_handler_def Let_def AList.update_conv')
qed

theorem C3_Open_replaces_witness:
  "fst (Bind_handler ''alice'' 2
          \<lparr>manager = \<lparr>connections = [(''alice'', \<lparr>conn = 1\<rparr>)], closed = False\<rparr>,
           calls = ([] :: unit connCall list)\<rparr>) = Reading \<and>
   snd (Bind_handler ''alice'' 2
          \<lparr>manager = \<lparr>connections = [(''alice'', \<lparr>conn = 1\<rparr>)], closed = False\<rparr>,
           calls = ([] :: unit connCall list)\<rparr>)
     = \<lparr>manager = \<lparr>connections = [(''alice'', \<lparr>conn = 2\<rparr>)], closed = False\<rparr>,
        calls = [ConnClose 1]\<rparr>"
  using C3_Open_replaces [of "\<lparr>manager = \<lparr>connections = [(''alice'', \<lparr>conn = 1\<rparr>)], closed = False\<rparr>,
           calls = ([] :: unit connCall list)\<rparr>" "''alice''" "\<lparr>conn = 1\<rparr>" 2]
  by (simp add: Bind_handler_def Let_def set_connections_def conn_Close_def)

text \<open>
  C4. For a user with no record in the registry, \<open>sendEvent\<close> returns nil and leaves the
  world as it was: no call is made on any connection (whatever the connection calls would
  have returned).
\<close>

theorem C4_send_offline:
  assumes "map_of (connections (manager w)) u = None"
  shows "sendEvent u event now deadlineResult writeResult w = (None, w)"
  using assms by (simp add: sendEvent_def)

theorem C4_send_offline_witness:
  "sendEvent ''carol'' ''transfer_made'' 0 None None
     \<lparr>manager = \<lparr>connections = [(''alice'', \<lparr>conn = 1\<rparr>)], closed = False\<rparr>, calls = []\<rparr>
   = (None, \<lparr>manager = \<lparr>connections = [(''alice'', \<lparr>conn = 1\<rparr>)], closed = False\<rparr>, calls = []\<rparr>)"
  using C4_send_offline [of "\<lparr>manager = \<lparr>connections = [(''alice'', \<lparr>conn = 1\<rparr>)], closed = False\<rparr>,
                              calls = ([] :: string connCall list)\<rparr>" "''carol''" "''transfer_made''" 0 None None]
  by simp

text \<open>
  C8. On a closed registry the handler for a new connection returns without entering the
  read loop, the registry (connection map and closed flag) is unchanged, and the one call
  made is the \<^verbatim>\<open>Close\<close> of the new connection.
\<close>

theorem C8_Open_on_closed:
  assumes "closed (manager w)"
  shows "fst (Bind_handler u c w) = Returned \<and>
         manager (snd (Bind_handler u c w)) = manager w \<and>
         calls (snd (Bind_handler u c w)) = calls w @ [ConnClose c]"
  using assms by (simp add: Bind_handler_def)

theorem C8_Open_on_closed_witness:
  "Bind_handler ''alice'' 2
     \<lparr>manager = \<lparr>connections = [(''alice'', \<lparr>conn = 1\<rparr>)], closed = True\<rparr>,
      calls = ([ConnClose 1] :: unit connCall list)\<rparr>
   = (Returned,
      \<lparr>manager = \<lparr>connections = [(''alice'', \<lparr>conn = 1\<rparr>)], closed = True\<rparr>,
       calls = [ConnClose 1, ConnClose 2]\<rparr>)"
  using C8_Open_on_closed [of "\<lparr>manager = \<lparr>connections = [(''alice'', \<lparr>conn = 1\<rparr>)], closed = True\<rparr>,
      calls = ([ConnClose 1] :: unit connCall list)\<rparr>" "''alice''" 2]
  by (simp add: Bind_handler_def conn_Close_def)

text \<open>
  C9. \<open>sendEvent\<close> never changes the registry: the connection map and the closed flag are
  the same after the call as before it, for every user, event, clock reading and outcome
  of the deadline and write calls.
\<close>

theorem C9_send_frame:
  "manager (snd (sendEvent u event now deadlineResult writeResult w)) = manager w"
  by (simp add: sendEvent_def Let_def split: option.splits)

theorem C9_send_frame_witness:
  "manager (snd (sendEvent ''alice'' ''transfer_made'' 0 None (Some (ConnError ''broken pipe''))
     \<lparr>manager = \<lparr>connections = [(''alice'', \<lparr>conn = 1\<rparr>)], closed = False\<rparr>, calls = []\<rparr>))
   = \<lparr>connections = [(''alice'', \<lparr>conn = 1\<rparr>)], closed = False\<rparr>"
  using C9_send_frame [of "''alice''" "''transfer_made''" 0 None "Some (ConnError ''broken pipe'')"
     "\<lparr>manager = \<lparr>connections = [(''alice'', \<lparr>conn = 1\<rparr>)], closed = False\<rparr>, calls = []\<rparr>"]
  by simp

text \<open>
  What \<open>Close\<close> does to the registry and to the records it holds: it returns a nil error,
  sets the closed flag, keeps the connection map exactly as it was (no entry is removed),
  and calls \<^verbatim>\<open>Close\<close> once on the connection of every record in the map. It makes no other
  call: a connection without a record is not touched.
\<close>

lemma Close_records:
  "fst (Close w) = None \<and>
   connections (manager (snd (Close w))) = connections (manager w) \<and>
   closed (manager (snd (Close w))) \<and>
   calls (snd (Close w))
     = calls w @ map (\<lambda>p. ConnClose (conn (snd p))) (connections (manager w)) \<and>
   (\<forall>p \<in> set (connections (manager w)). isClosed (conn (snd p)) (snd (Close w)))"
proof -
  have "0 < length (filter (\<lambda>q. conn (snd q) = conn (snd p)) cs)" if "p \<in> set cs"
    for p :: "userId \<times> connectionRecord" and cs
    using that by (auto simp: filter_empty_conv)
  then show ?thesis
    by (simp add: Close_def Let_def calls_closeAll isClosed_def closeCalls_closeAll)
qed

text \<open>
  C7, as the code has it. For a user with a record in a registry that is not closed,
  \<open>sendEvent\<close> first sets the write deadline to the clock reading plus 10 seconds
  (\<open>10 * 10^9\<close> nanoseconds). If that fails, no write is attempted and the failure is returned
  wrapped with the context "failed to set write deadline". Otherwise the event is written
  after the deadline call and the result of the write is returned as it is: nil on success,
  the write's own error, not wrapped, on failure. On a closed registry nothing is called and
  nil is returned.
\<close>

theorem C7_send_deadline_then_write:
  assumes "map_of (connections (manager w)) u = Some rec"
  shows "(closed (manager w) \<longrightarrow>
            sendEvent u event now deadlineResult writeResult w = (None, w)) \<and>
         (\<not> closed (manager w) \<longrightarrow>
            (\<forall>err. deadlineResult = Some err \<longrightarrow>
               sendEvent u event now deadlineResult writeResult w
                 = (Some (Wrap err ''failed to set write deadline''),
                    w\<lparr>calls := calls w @ [SetWriteDeadline (conn rec) (now + 10000000000)]\<rparr>)) \<and>
            (deadlineResult = None \<longrightarrow>
               sendEvent u event now deadlineResult writeResult w
                 = (writeResult,
                    w\<lparr>calls := calls w @ [SetWriteDeadline (conn rec) (now + 10000000000),
                                          WriteJSON (conn rec) event]\<rparr>)))"
  using assms by (simp add: sendEvent_def Second_def Let_def)

theorem C7_send_deadline_then_write_witness:
  "sendEvent ''alice'' ''transfer_made'' 5 (Some (ConnError ''closed'')) None
     \<lparr>manager = \<lparr>connections = [(''alice'', \<lparr>conn = 1\<rparr>)], closed = False\<rparr>, calls = []\<rparr>
   = (Some (Wrap (ConnError ''closed'') ''failed to set write deadline''),
      \<lparr>manager = \<lparr>connections = [(''alice'', \<lparr>conn = 1\<rparr>)], closed = False\<rparr>,
       calls = [SetWriteDeadline 1 10000000005]\<rparr>) \<and>
   sendEvent ''alice'' ''transfer_made'' 5 None None
     \<lparr>manager = \<lparr>connections = [(''alice'', \<lparr>conn = 1\<rparr>)], closed = False\<rparr>, calls = []\<rparr>
   = (None,
      \<lparr>manager = \<lparr>connections = [(''alice'', \<lparr>conn = 1\<rparr>)], closed = False\<rparr>,
       calls = [SetWriteDeadline 1 10000000005, WriteJSON 1 ''transfer_made'']\<rparr>) \<and>
   sendEvent ''alice'' ''transfer_made'' 5 None None
     \<lparr>manager = \<lparr>connections = [(''alice'', \<lparr>conn = 1\<rparr>)], closed = True\<rparr>, calls = []\<rparr>
   = (None,
      \<lparr>manager = \<lparr>connections = [(''alice'', \<lparr>conn = 1\<rparr>)], closed = True\<rparr>, calls = []\<rparr>)"
  using
    C7_send_deadline_then_write [of
      "\<lparr>manager = \<lparr>connections = [(''alice'', \<lparr>conn = 1\<rparr>)], closed = False\<rparr>,
        calls = ([] :: string connCall list)\<rparr>"
      "''alice''" "\<lparr>conn = 1\<rparr>" "''transfer_made''" 5 "Some (ConnError ''closed'')" None]
    C7_send_deadline_then_write [of
      "\<lparr>manager = \<lparr>connections = [(''alice'', \<lparr>conn = 1\<rparr>)], closed = False\<rparr>,
        calls = ([] :: string connCall list)\<rparr>"
      "''alice''" "\<lparr>conn = 1\<rparr>" "''transfer_made''" 5 None None]
    C7_send_deadline_then_write [of
      "\<lparr>manager = \<lparr>connections = [(''alice'', \<lparr>conn = 1\<rparr>)], closed = True\<rparr>,
        calls = ([] :: string connCall list)\<rparr>"
      "''alice''" "\<lparr>conn = 1\<rparr>" "''transfer_made''" 5 None None]
  by simp

text \<open>
  C7 as stated fails. A write that fails with the library's error on the connection of a
  connected user makes \<open>sendEvent\<close> return that error itself, with no \<^verbatim>\<open>errors.Wrap\<close> around
  it; and a user whose record is still in a registry that has been closed gets no deadline
  set at all.
\<close>

theorem C7_counterexample:
  "fst (sendEvent ''alice'' ''transfer_made'' 5 None (Some (ConnError ''broken pipe''))
          \<lparr>manager = \<lparr>connections = [(''alice'', \<lparr>conn = 1\<rparr>)], closed = False\<rparr>, calls = []\<rparr>)
     = Some (ConnError ''broken pipe'') \<and>
   map_option isWrapped
     (fst (sendEvent ''alice'' ''transfer_made'' 5 None (Some (ConnError ''broken pipe''))
          \<lparr>manager = \<lparr>connections = [(''alice'', \<lparr>conn = 1\<rparr>)], closed = False\<rparr>, calls = []\<rparr>))
     = Some False \<and>
   calls (snd (sendEvent ''alice'' ''transfer_made'' 5 None None
          \<lparr>manager = \<lparr>connections = [(''alice'', \<lparr>conn = 1\<rparr>)], closed = True\<rparr>, calls = []\<rparr>))
     = []"
  by (simp add: sendEvent_def Let_def)

section \<open>Invariants of executions\<close>

lemma set_update_distinct:
  "distinct (map fst al) \<Longrightarrow> set (AList.update k v al) = insert (k, v) {p \<in> set al. fst p \<noteq> k}"
  by (induction al) (auto intro: rev_image_eqI)

lemma same_conn_same_user:
  assumes "(a, c) \<in> set rs" and "distinct (map snd rs)" and "(b, c) \<in> set rs"
  shows "b = a"
proof -
  from assms(2) have "inj_on snd (set rs)"
    by (simp add: distinct_map)
  from inj_onD [OF this, of "(a, c)" "(b, c)"] assms(1,3) show ?thesis
    by simp
qed

lemma set_delete: "set (AList.delete k al) = {p \<in> set al. fst p \<noteq> k}"
  by (auto simp: AList.delete_eq)

lemma closeCalls_sendEvent [simp]:
  "closeCalls c (snd (sendEvent u e now d wr w)) = closeCalls c w"
  by (simp add: sendEvent_def closeCalls_def Let_def split: option.splits)

lemma manager_sendEvent [simp]: "manager (snd (sendEvent u e now d wr w)) = manager w"
  by (simp add: sendEvent_def Let_def split: option.splits)

lemma manager_Close [simp]: "manager (snd (Close w)) = (manager w)\<lparr>closed := True\<rparr>"
  by (simp add: Close_def Let_def)

lemma closeCalls_manager_update [simp]: "closeCalls c (w\<lparr>manager := m\<rparr>) = closeCalls c w"
  by (simp add: closeCalls_def)

lemma closeCalls_Close:
  "closeCalls c (snd (Close w))
     = closeCalls c w + length (filter (\<lambda>p. conn (snd p) = c) (connections (manager w)))"
  by (simp add: Close_def Let_def closeCalls_closeAll)

lemma consistent_initial: "consistent initial"
  by (simp add: consistent_def initial_def NewManager_def closeCalls_def)

lemma consistent_Open:
  assumes "consistent s" and "step (Open u c) s = Some s'"
  shows "consistent s'"
proof -
  let ?w = "world s"
  let ?cs = "connections (manager ?w)"
  from assms(2) have fresh: "c \<notin> set (opened s)"
    by (simp split: if_splits)
  from assms(1) have I1: "distinct (map fst ?cs)"
    and I2: "\<And>p. p \<in> set ?cs \<Longrightarrow> (fst p, conn (snd p)) \<in> set (readers s)"
    and I3: "distinct (map snd (readers s))"
    and I4: "snd ` set (readers s) \<subseteq> set (opened s)"
    and I5: "\<And>p. \<not> closed (manager ?w) \<Longrightarrow> p \<in> set ?cs \<Longrightarrow> closeCalls (conn (snd p)) ?w = 0"
    and I6: "\<And>d. d \<in> set (opened s) \<Longrightarrow> d \<notin> snd ` set (readers s) \<Longrightarrow> 1 \<le> closeCalls d ?w"
    and I7: "\<And>d. 0 < closeCalls d ?w \<Longrightarrow> d \<in> set (opened s)"
    and I8: "\<And>r. \<not> closed (manager ?w) \<Longrightarrow> r \<in> set (readers s) \<Longrightarrow> closeCalls (snd r) ?w \<le> 1"
    and I9: "\<And>d. \<not> closed (manager ?w) \<Longrightarrow> closeCalls d ?w \<le> 2"
    by (auto simp: consistent_def)
  from fresh I7 have c0: "closeCalls c ?w = 0"
    by auto
  from fresh I4 have cr: "c \<notin> snd ` set (readers s)"
    by auto
  show ?thesis
  proof (cases "closed (manager ?w)")
    case True
    with assms(2) fresh
    have s': "s' = \<lparr>world = conn_Close c ?w, readers = readers s, opened = opened s @ [c]\<rparr>"
      by (simp add: Bind_handler_def)
    show ?thesis
      unfolding consistent_def s'
      using True I1 I2 I3 I4 I6 I7 by (auto simp: le_Suc_eq)
  next
    case False
    show ?thesis
    proof (cases "map_of ?cs u")
      case None
      with False assms(2) fresh
      have s': "s' = \<lparr>world = set_connections (AList.update u \<lparr>conn = c\<rparr> ?cs) ?w,
                      readers = readers s @ [(u, c)], opened = opened s @ [c]\<rparr>"
        by (simp add: Bind_handler_def Let_def)
      show ?thesis
        unfolding consistent_def s'
        using False I1 I2 I3 I4 I5 I6 I7 I8 I9 c0 cr
        by (auto simp: set_update_distinct AList.distinct_update)
    next
      case (Some old)
      with False assms(2) fresh
      have s': "s' = \<lparr>world = set_connections (AList.update u \<lparr>conn = c\<rparr> ?cs) (conn_Close (conn old) ?w),
                      readers = readers s @ [(u, c)], opened = opened s @ [c]\<rparr>"
        by (simp add: Bind_handler_def Let_def)
      from Some have old_in: "(u, old) \<in> set ?cs"
        by (rule map_of_SomeD)
      from I2 [OF old_in] have old_r: "(u, conn old) \<in> set (readers s)"
        by simp
      have other: "fst p = u" if "p \<in> set ?cs" "conn (snd p) = conn old" for p
      proof -
        from I2 [OF that(1)] that(2) have "(fst p, conn old) \<in> set (readers s)"
          by simp
        with old_r I3 show ?thesis
          by (rule same_conn_same_user)
      qed
      from old_r I4 have old_o: "conn old \<in> set (opened s)"
        by force
      with fresh have ne: "conn old \<noteq> c"
        by auto
      from I5 [OF False old_in] have old0: "closeCalls (conn old) ?w = 0"
        by simp
      have K8: "closeCalls (snd r) (conn_Close (conn old) ?w) \<le> 1"
        if "r \<in> set (readers s)" for r
        using I8 [OF False that] old0 by (cases "conn old = snd r") simp_all
      have K9: "closeCalls d (conn_Close (conn old) ?w) \<le> 2" for d
        using I9 [OF False, of d] old0 by (cases "conn old = d") simp_all
      have part1:
        "distinct (map fst (AList.update u \<lparr>conn = c\<rparr> ?cs)) \<and>
         (\<forall>p \<in> set (AList.update u \<lparr>conn = c\<rparr> ?cs).
            (fst p, conn (snd p)) \<in> set (readers s @ [(u, c)])) \<and>
         distinct (map snd (readers s @ [(u, c)])) \<and>
         snd ` set (readers s @ [(u, c)]) \<subseteq> set (opened s @ [c])"
        using I1 I2 I3 I4 cr by (auto simp: set_update_distinct AList.distinct_update)
      have part2:
        "\<forall>p \<in> set (AList.update u \<lparr>conn = c\<rparr> ?cs).
           closeCalls (conn (snd p)) (conn_Close (conn old) ?w) = 0"
        using I1 I5 [OF False] c0 other ne by (auto simp: set_update_distinct)
      have part3:
        "(\<forall>d \<in> set (opened s @ [c]). d \<notin> snd ` set (readers s @ [(u, c)]) \<longrightarrow>
            1 \<le> closeCalls d (conn_Close (conn old) ?w)) \<and>
         (\<forall>d. 0 < closeCalls d (conn_Close (conn old) ?w) \<longrightarrow> d \<in> set (opened s @ [c]))"
        using I6 I7 old_o by (auto simp: le_Suc_eq)
      have part4:
        "(\<forall>r \<in> set (readers s @ [(u, c)]). closeCalls (snd r) (conn_Close (conn old) ?w) \<le> 1) \<and>
         (\<forall>d. closeCalls d (conn_Close (conn old) ?w) \<le> 2)"
        using K8 K9 c0 ne by auto
      show ?thesis
        unfolding consistent_def s'
        using part1 part2 part3 part4 by simp
    qed
  qed
qed

lemma consistent_ReadError:
  assumes "consistent s" and "step (ReadError u c) s = Some s'"
  shows "consistent s'"
proof -
  let ?w = "world s"
  let ?cs = "connections (manager ?w)"
  from assms(2) have rd: "(u, c) \<in> set (readers s)"
    by (simp split: if_splits)
  with assms(2)
  have s': "s' = \<lparr>world = conn_Close c (set_connections (AList.delete u ?cs) ?w),
                  readers = removeAll (u, c) (readers s), opened = opened s\<rparr>"
    by (simp add: Bind_readError_def)
  from assms(1) have I1: "distinct (map fst ?cs)"
    and I2: "\<And>p. p \<in> set ?cs \<Longrightarrow> (fst p, conn (snd p)) \<in> set (readers s)"
    and I3: "distinct (map snd (readers s))"
    and I4: "snd ` set (readers s) \<subseteq> set (opened s)"
    and I5: "\<And>p. \<not> closed (manager ?w) \<Longrightarrow> p \<in> set ?cs \<Longrightarrow> closeCalls (conn (snd p)) ?w = 0"
    and I6: "\<And>d. d \<in> set (opened s) \<Longrightarrow> d \<notin> snd ` set (readers s) \<Longrightarrow> 1 \<le> closeCalls d ?w"
    and I7: "\<And>d. 0 < closeCalls d ?w \<Longrightarrow> d \<in> set (opened s)"
    and I8: "\<And>r. \<not> closed (manager ?w) \<Longrightarrow> r \<in> set (readers s) \<Longrightarrow> closeCalls (snd r) ?w \<le> 1"
    and I9: "\<And>d. \<not> closed (manager ?w) \<Longrightarrow> closeCalls d ?w \<le> 2"
    by (auto simp: consistent_def)
  have own: "fst p = u" if "p \<in> set ?cs" "conn (snd p) = c" for p
  proof -
    from I2 [OF that(1)] that(2) have "(fst p, c) \<in> set (readers s)"
      by simp
    with rd I3 show ?thesis
      by (rule same_conn_same_user)
  qed
  have gone: "a = u" if "(a, c) \<in> set (readers s)" for a
    using rd I3 that by (rule same_conn_same_user)
  from rd I4 have c_o: "c \<in> set (opened s)"
    by force
  have J1: "distinct (map fst (AList.delete u ?cs))"
    using I1 by (rule AList.distinct_delete)
  have J2: "(fst p, conn (snd p)) \<in> set (removeAll (u, c) (readers s))"
    if "p \<in> set (AList.delete u ?cs)" for p
    using that I2 [of p] by (auto simp: set_delete)
  have J3: "distinct (map snd (removeAll (u, c) (readers s)))"
    using I3 by (simp add: distinct_map distinct_removeAll inj_on_def)
  have J4: "snd ` set (removeAll (u, c) (readers s)) \<subseteq> set (opened s)"
    using I4 by auto
  have J5: "closeCalls (conn (snd p)) (conn_Close c (set_connections (AList.delete u ?cs) ?w)) = 0"
    if "\<not> closed (manager ?w)" "p \<in> set (AList.delete u ?cs)" for p
    using that I5 [of p] own [of p] by (auto simp: set_delete)
  have J6: "1 \<le> closeCalls d (conn_Close c (set_connections (AList.delete u ?cs) ?w))"
    if "d \<in> set (opened s)" "d \<notin> snd ` set (removeAll (u, c) (readers s))" for d
  proof (cases "d = c")
    case True
    then show ?thesis by simp
  next
    case False
    with that(2) have "d \<notin> snd ` set (readers s)"
      by force
    from I6 [OF that(1) this] show ?thesis
      by simp
  qed
  have J7: "d \<in> set (opened s)"
    if "0 < closeCalls d (conn_Close c (set_connections (AList.delete u ?cs) ?w))" for d
    using that I7 [of d] c_o by (cases "d = c") simp_all
  have J8: "closeCalls (snd r) (conn_Close c (set_connections (AList.delete u ?cs) ?w)) \<le> 1"
    if "\<not> closed (manager ?w)" "r \<in> set (removeAll (u, c) (readers s))" for r
  proof -
    from that(2) have r: "r \<in> set (readers s)" and ne: "r \<noteq> (u, c)"
      by auto
    have "snd r \<noteq> c"
    proof
      assume "snd r = c"
      with r have "(fst r, c) \<in> set (readers s)"
        by (metis prod.collapse)
      from gone [OF this] \<open>snd r = c\<close> ne show False
        by (metis prod.collapse)
    qed
    with I8 [OF that(1) r] show ?thesis
      by simp
  qed
  have J9: "closeCalls d (conn_Close c (set_connections (AList.delete u ?cs) ?w)) \<le> 2"
    if "\<not> closed (manager ?w)" for d
    using I9 [OF that, of d] I8 [OF that rd] by (cases "d = c") simp_all
  show ?thesis
    unfolding consistent_def s'
    using J1 J2 J3 J4 J5 J6 J7 J8 J9 by simp
qed

lemma consistent_Send:
  assumes "consistent s" and "step (Send u e now d wr) s = Some s'"
  shows "consistent s'"
proof -
  from assms(2) have "s' = s\<lparr>world := snd (sendEvent u e now d wr (world s))\<rparr>"
    by simp
  with assms(1) show ?thesis
    by (simp add: consistent_def)
qed

lemma consistent_Shutdown:
  assumes "consistent s" and "step Shutdown s = Some s'"
  shows "consistent s'"
proof -
  let ?w = "world s"
  let ?cs = "connections (manager ?w)"
  from assms(2) have s': "s' = s\<lparr>world := snd (Close ?w)\<rparr>"
    by simp
  from assms(1) have I1: "distinct (map fst ?cs)"
    and I2: "\<And>p. p \<in> set ?cs \<Longrightarrow> (fst p, conn (snd p)) \<in> set (readers s)"
    and I3: "distinct (map snd (readers s))"
    and I4: "snd ` set (readers s) \<subseteq> set (opened s)"
    and I6: "\<And>d. d \<in> set (opened s) \<Longrightarrow> d \<notin> snd ` set (readers s) \<Longrightarrow> 1 \<le> closeCalls d ?w"
    and I7: "\<And>d. 0 < closeCalls d ?w \<Longrightarrow> d \<in> set (opened s)"
    by (auto simp: consistent_def)
  have J6: "1 \<le> closeCalls d (snd (Close ?w))"
    if "d \<in> set (opened s)" "d \<notin> snd ` set (readers s)" for d
    using I6 [OF that] by (simp add: closeCalls_Close)
  have J7: "d \<in> set (opened s)" if "0 < closeCalls d (snd (Close ?w))" for d
  proof (cases "0 < closeCalls d ?w")
    case True
    then show ?thesis by (rule I7)
  next
    case False
    with that have "filter (\<lambda>p. conn (snd p) = d) ?cs \<noteq> []"
      by (simp add: closeCalls_Close)
    then obtain p where "p \<in> set ?cs" "conn (snd p) = d"
      by (auto simp: filter_empty_conv)
    with I2 [of p] have "d \<in> snd ` set (readers s)"
      by force
    with I4 show ?thesis by auto
  qed
  show ?thesis
    unfolding consistent_def s'
    using I1 I2 I3 I4 J6 J7 by simp
qed

lemma consistent_step:
  assumes "consistent s" and "step a s = Some s'"
  shows "consistent s'"
proof (cases a)
  case (Open u c)
  with assms show ?thesis by (auto intro: consistent_Open)
next
  case (ReadError u c)
  with assms show ?thesis by (auto intro: consistent_ReadError)
next
  case (Send u e now d wr)
  with assms show ?thesis by (auto intro: consistent_Send)
next
  case Shutdown
  with assms show ?thesis by (auto intro: consistent_Shutdown)
qed

lemma consistent_exec:
  "consistent s \<Longrightarrow> exec as s = Some s' \<Longrightarrow> consistent s'"
proof (induction as arbitrary: s)
  case Nil
  then show ?case by simp
next
  case (Cons a as)
  from Cons.prems(2) obtain s1 where s1: "step a s = Some s1" and rest: "exec as s1 = Some s'"
    by (auto split: option.splits)
  from Cons.prems(1) s1 have "consistent s1"
    by (rule consistent_step)
  from Cons.IH [OF this rest] show ?case .
qed

text \<open>Calls are only ever added to the log, and a closed registry stays closed and gains no record.\<close>

lemma closeCalls_step_mono:
  assumes "step a s = Some s'"
  shows "closeCalls c (world s) \<le> closeCalls c (world s')"
proof (cases a)
  case (Open u d)
  with assms show ?thesis
    by (auto simp: Bind_handler_def Let_def split: if_splits option.splits)
next
  case (ReadError u d)
  with assms show ?thesis
    by (auto simp: Bind_readError_def split: if_splits)
next
  case (Send u e now d wr)
  with assms show ?thesis by auto
next
  case Shutdown
  with assms show ?thesis by (auto simp: closeCalls_Close)
qed

lemma closed_step:
  assumes "step a s = Some s'" and "closed (manager (world s))"
  shows "closed (manager (world s')) \<and>
         set (connections (manager (world s'))) \<subseteq> set (connections (manager (world s)))"
proof (cases a)
  case (Open u d)
  with assms show ?thesis
    by (auto simp: Bind_handler_def split: if_splits)
next
  case (ReadError u d)
  with assms show ?thesis
    by (auto simp: Bind_readError_def set_delete split: if_splits)
next
  case (Send u e now d wr)
  with assms show ?thesis by auto
next
  case Shutdown
  with assms show ?thesis by auto
qed

lemma closed_exec:
  "exec as s = Some s' \<Longrightarrow> closed (manager (world s)) \<Longrightarrow>
     closed (manager (world s')) \<and>
     set (connections (manager (world s'))) \<subseteq> set (connections (manager (world s))) \<and>
     (\<forall>c. closeCalls c (world s) \<le> closeCalls c (world s'))"
proof (induction as arbitrary: s)
  case Nil
  then show ?case by simp
next
  case (Cons a as)
  from Cons.prems(1) obtain s1 where s1: "step a s = Some s1" and rest: "exec as s1 = Some s'"
    by (auto split: option.splits)
  from closed_step [OF s1 Cons.prems(2)]
  have c1: "closed (manager (world s1))"
    and sub1: "set (connections (manager (world s1))) \<subseteq> set (connections (manager (world s)))"
    by simp_all
  from Cons.IH [OF rest c1]
  have c': "closed (manager (world s'))"
    and sub': "set (connections (manager (world s'))) \<subseteq> set (connections (manager (world s1)))"
    and mono': "\<And>c. closeCalls c (world s1) \<le> closeCalls c (world s')"
    by simp_all
  have "closeCalls c (world s) \<le> closeCalls c (world s')" for c
    using closeCalls_step_mono [OF s1, of c] mono' [of c] by (rule order_trans)
  with c' sub' sub1 show ?case by blast
qed

section \<open>Executions\<close>

text \<open>
  C1. The reader of an older connection removes the record of a newer one. Alice opens
  connection 1 and then connection 2: the second handler closes connection 1 and stores the
  record of connection 2. The read of connection 1 now fails (it was closed), and its
  reader deletes Alice's entry, which is the record of connection 2: the registry ends with
  no entry for Alice while the handler of connection 2 is still in its read loop. An event
  sent to Alice afterwards is written nowhere, and \<open>Close\<close> of the registry does not close
  connection 2.
\<close>

theorem C1_stale_reader_removes_newer_record:
  "map_option (\<lambda>s. (connections (manager (world s)), readers s))
     (exec [Open ''alice'' 1, Open ''alice'' 2] (initial :: string system))
     = Some ([(''alice'', \<lparr>conn = 2\<rparr>)], [(''alice'', 1), (''alice'', 2)]) \<and>
   map_option (\<lambda>s. (connections (manager (world s)), readers s))
     (exec [Open ''alice'' 1, Open ''alice'' 2, ReadError ''alice'' 1] (initial :: string system))
     = Some ([], [(''alice'', 2)]) \<and>
   map_option (\<lambda>s. (calls (world s), readers s))
     (exec [Open ''alice'' 1, Open ''alice'' 2, ReadError ''alice'' 1,
            Send ''alice'' ''transfer_made'' 0 None None, Shutdown] (initial :: string system))
     = Some ([ConnClose 1, ConnClose 1], [(''alice'', 2)])"
  by (simp add: initial_def NewManager_def Bind_handler_def Bind_readError_def Let_def
        set_connections_def conn_Close_def sendEvent_def Close_def closeAll_def)

text \<open>
  C2 as stated fails: in the same execution connection 1 is closed twice, once by the
  eviction in the handler of connection 2 and once more by the deferred \<^verbatim>\<open>Close\<close> of its own
  handler when the read fails.
\<close>

theorem C2_counterexample:
  "map_option (closeCalls 1 \<circ> world)
     (exec [Open ''alice'' 1, Open ''alice'' 2, ReadError ''alice'' 1] (initial :: unit system))
     = Some 2"
  by (simp add: initial_def NewManager_def Bind_handler_def Bind_readError_def Let_def
        set_connections_def conn_Close_def closeCalls_def)


text \<open>
  C2, as the code has it. In every state an execution from the new registry reaches:
  every connection handed to a handler whose goroutine is no longer in its read loop has
  been closed at least once (the deferred \<^verbatim>\<open>Close\<close> always runs); only connections handed
  to a handler are ever closed; and while the registry is not closed, the channel of every
  record in the map has never been closed and no channel has been closed more than twice.
  The closing paths are not exclusive: eviction and \<open>Close\<close> of the registry close a
  channel that the goroutine's deferred \<^verbatim>\<open>Close\<close> closes again when its read fails.
\<close>

theorem C2_closed_when_handler_gone:
  assumes "exec as initial = Some s"
  shows "(\<forall>c \<in> set (opened s). c \<notin> snd ` set (readers s) \<longrightarrow> 1 \<le> closeCalls c (world s)) \<and>
         (\<forall>c. 0 < closeCalls c (world s) \<longrightarrow> c \<in> set (opened s)) \<and>
         (\<not> closed (manager (world s)) \<longrightarrow>
            (\<forall>p \<in> set (connections (manager (world s))).
               closeCalls (conn (snd p)) (world s) = 0) \<and>
            (\<forall>c. closeCalls c (world s) \<le> 2))"
proof -
  from consistent_initial assms have "consistent s"
    by (rule consistent_exec)
  then show ?thesis
    unfolding consistent_def by blast
qed

theorem C2_closed_when_handler_gone_witness:
  "exec [Open ''alice'' 1, Open ''bob'' 2, ReadError ''alice'' 1] (initial :: unit system)
     = Some \<lparr>world = \<lparr>manager = \<lparr>connections = [(''bob'', \<lparr>conn = 2\<rparr>)], closed = False\<rparr>,
                       calls = [ConnClose 1]\<rparr>,
             readers = [(''bob'', 2)], opened = [1, 2]\<rparr> \<and>
   1 \<le> closeCalls 1 \<lparr>manager = \<lparr>connections = [(''bob'', \<lparr>conn = 2\<rparr>)], closed = False\<rparr>,
                       calls = ([ConnClose 1] :: unit connCall list)\<rparr> \<and>
   closeCalls 2 \<lparr>manager = \<lparr>connections = [(''bob'', \<lparr>conn = 2\<rparr>)], closed = False\<rparr>,
                  calls = ([ConnClose 1] :: unit connCall list)\<rparr> = 0"
proof -
  have run: "exec [Open ''alice'' 1, Open ''bob'' 2, ReadError ''alice'' 1] (initial :: unit system)
     = Some \<lparr>world = \<lparr>manager = \<lparr>connections = [(''bob'', \<lparr>conn = 2\<rparr>)], closed = False\<rparr>,
                       calls = [ConnClose 1]\<rparr>,
             readers = [(''bob'', 2)], opened = [1, 2]\<rparr>"
    by (simp add: initial_def NewManager_def Bind_handler_def Bind_readError_def Let_def
          set_connections_def conn_Close_def)
  from C2_closed_when_handler_gone [OF run] run show ?thesis
    by simp
qed

text \<open>
  The registry after \<open>Close\<close>. Take any state, run \<open>Close\<close> on its registry, and let any
  execution follow. In the state reached the registry is still closed; the channel of every
  record that was in the map when \<open>Close\<close> ran is closed; the map holds no record that was
  not there already; a handler for a new connection returns at once and leaves the registry
  as it is; every
  \<open>sendEvent\<close> returns nil and does nothing; and a further \<open>Close\<close> changes neither the
  registry nor which channels are closed.
\<close>

lemma registry_after_Close:
  assumes "exec as (s0\<lparr>world := snd (Close (world s0))\<rparr>) = Some s"
  shows "closed (manager (world s)) \<and>
         (\<forall>p \<in> set (connections (manager (world s0))). isClosed (conn (snd p)) (world s)) \<and>
         set (connections (manager (world s))) \<subseteq> set (connections (manager (world s0))) \<and>
         (\<forall>u c. fst (Bind_handler u c (world s)) = Returned \<and>
                manager (snd (Bind_handler u c (world s))) = manager (world s)) \<and>
         (\<forall>u e now d wr. sendEvent u e now d wr (world s) = (None, world s)) \<and>
         manager (snd (Close (world s))) = manager (world s) \<and>
         (\<forall>c. isClosed c (snd (Close (world s))) = isClosed c (world s))"
proof -
  let ?s1 = "s0\<lparr>world := snd (Close (world s0))\<rparr>"
  let ?cs0 = "connections (manager (world s0))"
  have "closed (manager (world ?s1))"
    by simp
  from closed_exec [OF assms this]
  have cl: "closed (manager (world s))"
    and sub: "set (connections (manager (world s))) \<subseteq> set ?cs0"
    and mono: "\<And>c. closeCalls c (snd (Close (world s0))) \<le> closeCalls c (world s)"
    by simp_all
  have shut: "isClosed (conn (snd p)) (world s)" if "p \<in> set ?cs0" for p
  proof -
    from that have "filter (\<lambda>q. conn (snd q) = conn (snd p)) ?cs0 \<noteq> []"
      by (auto simp: filter_empty_conv)
    then have "0 < closeCalls (conn (snd p)) (snd (Close (world s0)))"
      by (simp add: closeCalls_Close)
    with mono [of "conn (snd p)"] show ?thesis
      by (simp add: isClosed_def)
  qed
  have again: "isClosed c (snd (Close (world s))) = isClosed c (world s)" for c
  proof (cases "filter (\<lambda>q. conn (snd q) = c) (connections (manager (world s))) = []")
    case True
    then show ?thesis
      by (simp add: isClosed_def closeCalls_Close)
  next
    case False
    then obtain p where "p \<in> set (connections (manager (world s)))" "conn (snd p) = c"
      by (auto simp: filter_empty_conv)
    with sub shut [of p] have "isClosed c (world s)"
      by auto
    then show ?thesis
      by (simp add: isClosed_def closeCalls_Close)
  qed
  have same: "manager (snd (Close (world s))) = manager (world s)"
    using cl by simp
  show ?thesis
    using cl shut sub again same
    by (simp add: Bind_handler_def sendEvent_def)
qed

text \<open>
  C5. Once the closed flag is set, every connection that was open should have a closed
  channel. The code misses the connections that have lost their record. Alice opens
  connection 1 and then connection 2; the reader of connection 1 fails and deletes her entry,
  which is the record of connection 2; then the registry is shut down. The flag is set, but
  \<open>Close\<close> found an empty map: connection 2 was handed to a handler, the handler is still in
  its read loop, and no \<^verbatim>\<open>Close\<close> was ever called on it.
\<close>

theorem C5_Shutdown_leaves_connection_open:
  "map_option
     (\<lambda>s. (closed (manager (world s)), opened s, readers s,
           isClosed 1 (world s), isClosed 2 (world s)))
     (exec [Open ''alice'' 1, Open ''alice'' 2, ReadError ''alice'' 1, Shutdown]
        (initial :: unit system))
     = Some (True, [1, 2], [(''alice'', 2)], True, False)"
  by (simp add: initial_def NewManager_def Bind_handler_def Bind_readError_def Let_def
        set_connections_def conn_Close_def Close_def closeAll_def isClosed_def closeCalls_def)

text \<open>
  C10. Shutdown should close the channel of every live connection. In the state reached
  when Alice has opened connections 1 and 2 and the reader of connection 1 has failed,
  connection 2 is live (its handler is reading, it was never closed) but has no record, and
  \<open>Close\<close> run in that state returns nil, sets the flag, keeps the (empty) map and makes no
  call at all: the log still holds the two closes of connection 1 only.
\<close>

theorem C10_Close_skips_live_connection:
  "map_option
     (\<lambda>s. (readers s, closeCalls 2 (world s), Close (world s),
           closeCalls 2 (snd (Close (world s)))))
     (exec [Open ''alice'' 1, Open ''alice'' 2, ReadError ''alice'' 1] (initial :: unit system))
     = Some ([(''alice'', 2)], 0,
             (None, \<lparr>manager = \<lparr>connections = [], closed = True\<rparr>,
                     calls = [ConnClose 1, ConnClose 1]\<rparr>),
             0)"
  by (simp add: initial_def NewManager_def Bind_handler_def Bind_readError_def Let_def
        set_connections_def conn_Close_def Close_def closeAll_def closeCalls_def)

end
